theory Spec2Isabelle
  imports Main "HOL-Library.Word" "HOL-Library.Signed_Division"
begin

unbundle bit_operations_syntax

section \<open>Data model of \<open>speculate_and_leak.cpp\<close>\<close>

text \<open>
  \<open>leak_byte\<close> keeps two arrays of \<open>NUM_LINES = 256\<close> entries: \<open>times\<close>, whose entries
  have the type of \<open>cpu_time()\<close> (\<open>int64_t\<close>), and \<open>scores\<close>, whose entries are \<open>int\<close>.
  Latencies are 64-bit words read as two's complement. The accumulator of
  \<open>std::accumulate(.., 0)\<close> has the type of its initial value, \<open>int\<close>, a 32-bit word.
  Scores are modelled as unbounded integers: a score is incremented at most once in
  each of at most 1000 rounds (lemma \<open>scores_after_bounds\<close>), so the 32-bit \<open>int\<close>
  of the source never overflows.
\<close>

type_synonym int64 = "64 word"
type_synonym cint = "32 word"
type_synonym uint8 = "8 word"

definition NUM_LINES :: nat where
  "NUM_LINES = 256"

subsection \<open>\<open>get_top_two\<close>\<close>

text \<open>
  Iterators are positions in the list. \<open>std::tie(k, j) = std::tie(j, i)\<close> assigns
  \<open>k = j\<close> and then \<open>j = i\<close>.
\<close>

fun top_two_step :: "'a::linorder list \<Rightarrow> nat \<Rightarrow> nat \<times> nat \<Rightarrow> nat \<times> nat" where
  "top_two_step xs i (j, k) =
     (if xs ! i > xs ! j then (i, j)
      else if xs ! i > xs ! k then (j, i)
      else (j, k))"

definition top_two_upto :: "'a::linorder list \<Rightarrow> nat \<Rightarrow> nat \<times> nat" where
  "top_two_upto xs n = fold (top_two_step xs) [0..<n] (0, 0)"

definition get_top_two :: "'a::linorder list \<Rightarrow> nat \<times> nat" where
  "get_top_two xs = top_two_upto xs (length xs)"

subsection \<open>The training loop, architecturally\<close>

text \<open>
  \<open>slow_size\<close> points to an \<open>int\<close> that is 1 and never written. \<open>index\<close> is an \<open>int\<close>;
  \<open>private_data\<close> is the memory behind the pointer, a byte for each offset. The loop
  has no effect on the variables of the program; what it does is recorded as a trace:
  each iteration logs the index it selected and, when the check passes, the line of
  \<open>timing_array\<close> that \<open>force_read\<close> touches.
\<close>

definition slow_size :: int where
  "slow_size = 1"

definition local_index :: "int \<Rightarrow> nat \<Rightarrow> int" where
  "local_index index i = (if (int i + 1) mod 10 \<noteq> 0 then 0 else index)"

record train_event =
  selected :: int
  line_read :: "uint8 option"

definition train_iter :: "(int \<Rightarrow> uint8) \<Rightarrow> int \<Rightarrow> nat \<Rightarrow> train_event" where
  "train_iter private_data index i =
     (let li = local_index index i
      in \<lparr>selected = li,
          line_read = (if li < slow_size then Some (private_data li) else None)\<rparr>)"

definition train_loop :: "(int \<Rightarrow> uint8) \<Rightarrow> int \<Rightarrow> train_event list" where
  "train_loop private_data index = map (train_iter private_data index) [0..<500]"

subsection \<open>The measurement pass\<close>

text \<open>
  \<open>int shuffled_i = ((i * 167) + 13) & 0xff\<close>. The latency \<open>cpu_time() - start\<close> of
  the \<open>i\<close>-th visit comes from the hardware: it is the parameter \<open>lat i\<close>. The pass
  returns the lines in the order it visited them, and the updated \<open>times\<close>.
\<close>

definition shuffled :: "nat \<Rightarrow> nat" where
  "shuffled i = nat ((int i * 167 + 13) AND 0xff)"

definition measure_step :: "(nat \<Rightarrow> int64) \<Rightarrow> nat \<Rightarrow> nat list \<times> int64 list \<Rightarrow> nat list \<times> int64 list" where
  "measure_step lat i = (\<lambda>(visited, tms). (visited @ [shuffled i], tms[shuffled i := lat i]))"

definition measure_pass :: "(nat \<Rightarrow> int64) \<Rightarrow> int64 list \<Rightarrow> nat list \<times> int64 list" where
  "measure_pass lat tms = fold (measure_step lat) [0..<NUM_LINES] ([], tms)"

subsection \<open>Mean and scoring\<close>

text \<open>
  \<open>std::accumulate(times.begin(), times.end(), 0)\<close>: the accumulator is an \<open>int\<close>;
  each step computes \<open>acc + *it\<close> in \<open>int64_t\<close> and converts the sum back to \<open>int\<close>,
  keeping its low 32 bits. \<open>/ NUM_LINES\<close> is the division of C++ on \<open>int\<close>, which
  truncates towards zero.
\<close>

definition accumulate_step :: "int64 \<Rightarrow> cint \<Rightarrow> cint" where
  "accumulate_step t acc = ucast ((scast acc :: int64) + t)"

definition accumulate :: "int64 list \<Rightarrow> cint" where
  "accumulate tms = fold accumulate_step tms 0"

definition t_avg :: "int64 list \<Rightarrow> cint" where
  "t_avg tms = word_of_int (sint (accumulate tms) sdiv int NUM_LINES)"

text \<open>
  \<open>if (times[i] * 2 < t_avg && i != private_data[0]) ++scores[i]\<close>: the product is
  an \<open>int64_t\<close>, \<open>t_avg\<close> is sign-extended to \<open>int64_t\<close>, the comparison is signed;
  \<open>private_data[0]\<close> is promoted to \<open>int\<close>.
\<close>

definition is_fast :: "int64 list \<Rightarrow> nat \<Rightarrow> bool" where
  "is_fast tms i = (tms ! i * 2 <s (scast (t_avg tms) :: int64))"

definition score_step :: "uint8 \<Rightarrow> int64 list \<Rightarrow> nat \<Rightarrow> int list \<Rightarrow> int list" where
  "score_step pd0 tms i sc =
     (if is_fast tms i \<and> int i \<noteq> uint pd0 then sc[i := sc ! i + 1] else sc)"

definition score_pass :: "uint8 \<Rightarrow> int64 list \<Rightarrow> int list \<Rightarrow> int list" where
  "score_pass pd0 tms sc = fold (score_step pd0 tms) [0..<NUM_LINES] sc"

subsection \<open>Rounds and \<open>leak_byte\<close>\<close>

text \<open>The field \<open>times_arr\<close> is the array \<open>times\<close> of the source.\<close>

record round_state =
  times_arr :: "int64 list"
  scores :: "int list"

definition init_state :: round_state where
  "init_state = \<lparr>times_arr = replicate NUM_LINES 0, scores = replicate NUM_LINES 0\<rparr>"

text \<open>
  The body of the \<open>run\<close> loop up to the update of \<open>scores\<close>. The flushes
  (\<open>_mm_clflush\<close>), the stall loop and the training loop write no variable of the
  program: \<open>force_read\<close> is an empty \<open>asm volatile\<close> that only consumes the byte. What
  they do to the caches reaches the program through the latencies alone, which are the
  parameter \<open>lat\<close>; what the training loop does architecturally is \<open>train_loop\<close> above.
\<close>

definition round_body :: "(nat \<Rightarrow> int64) \<Rightarrow> uint8 \<Rightarrow> round_state \<Rightarrow> round_state" where
  "round_body lat pd0 st =
     (let tms = snd (measure_pass lat (times_arr st))
      in \<lparr>times_arr = tms, scores = score_pass pd0 tms (scores st)\<rparr>)"

text \<open>\<open>*top.first > (*top.second) * 2 + 200\<close>, with \<open>top_pair\<close> for the pair \<open>top\<close> of the source.\<close>

definition clear_winner :: "int list \<Rightarrow> nat \<times> nat \<Rightarrow> bool" where
  "clear_winner sc top_pair = (sc ! fst top_pair > sc ! snd top_pair * 2 + 200)"

text \<open>
  What one call of \<open>leak_byte\<close> gives back: the \<open>char\<close> it returns, what it wrote to
  \<open>std::cout\<close>, and (for the statements about rounds) the number of rounds it ran.
\<close>

record leak_result =
  byte :: uint8
  out :: string
  rounds :: nat

function leak_rounds :: "(nat \<Rightarrow> nat \<Rightarrow> int64) \<Rightarrow> uint8 \<Rightarrow> nat \<Rightarrow> round_state \<Rightarrow> nat \<times> nat \<Rightarrow> leak_result" where
  "leak_rounds lat pd0 run st top_pair =
     (if run < 1000 then
        (let st' = round_body (lat run) pd0 st;
             top_pair' = get_top_two (scores st')
         in if clear_winner (scores st') top_pair'
            then \<lparr>byte = of_nat (fst top_pair'), out = '''', rounds = Suc run\<rparr>
            else leak_rounds lat pd0 (Suc run) st' top_pair')
      else \<lparr>byte = of_nat (fst top_pair), out = ''[[[unlikely]]]:'', rounds = run\<rparr>)"
  by pat_completeness auto
termination
  by (relation "measure (\<lambda>(lat, pd0, run, st, top_pair). 1000 - run)") auto

text \<open>
  \<open>lat run i\<close> is the latency the hardware shows at the \<open>i\<close>-th visit of round \<open>run\<close>.
  The result depends on \<open>index\<close> only through these latencies.
\<close>

definition leak_byte :: "(int \<Rightarrow> uint8) \<Rightarrow> int \<Rightarrow> (nat \<Rightarrow> nat \<Rightarrow> int64) \<Rightarrow> leak_result" where
  "leak_byte private_data index lat = leak_rounds lat (private_data 0) 0 init_state (0, 0)"

text \<open>The state at the end of round \<open>r\<close> of a call that has not returned before.\<close>

primrec state_after :: "(nat \<Rightarrow> nat \<Rightarrow> int64) \<Rightarrow> uint8 \<Rightarrow> nat \<Rightarrow> round_state" where
  "state_after lat pd0 0 = init_state"
| "state_after lat pd0 (Suc r) = round_body (lat r) pd0 (state_after lat pd0 r)"

definition scores_after :: "(nat \<Rightarrow> nat \<Rightarrow> int64) \<Rightarrow> uint8 \<Rightarrow> nat \<Rightarrow> int list" where
  "scores_after lat pd0 r = scores (state_after lat pd0 r)"

definition exit_fires :: "(nat \<Rightarrow> nat \<Rightarrow> int64) \<Rightarrow> uint8 \<Rightarrow> nat \<Rightarrow> bool" where
  "exit_fires lat pd0 r = clear_winner (scores_after lat pd0 r) (get_top_two (scores_after lat pd0 r))"

subsection \<open>Notions the statements use\<close>

text \<open>The inverse of \<open>shuffled\<close> on \<open>0..255\<close>: \<open>167 * 23 = 15 * 256 + 1\<close>.\<close>

definition unshuffled :: "nat \<Rightarrow> nat" where
  "unshuffled j = (23 * j + 213) mod 256"

text \<open>
  Hardware whose latency depends on the line only: in every round, the read of line
  \<open>l\<close> takes \<open>f l\<close> cycles. \<open>lat_flat\<close> shows no fast line; \<open>lat_warm a b\<close> shows the
  lines \<open>a\<close> and \<open>b\<close> in cache (30 cycles) and the others in memory (300 cycles).
\<close>

definition lat_lines :: "(nat \<Rightarrow> int64) \<Rightarrow> nat \<Rightarrow> nat \<Rightarrow> int64" where
  "lat_lines f run i = f (shuffled i)"

definition lat_flat :: "nat \<Rightarrow> int64" where
  "lat_flat l = 100"

definition lat_warm :: "nat \<Rightarrow> nat \<Rightarrow> nat \<Rightarrow> int64" where
  "lat_warm a b l = (if l = a \<or> l = b then 30 else 300)"

text \<open>
  The top two of a vector, in the words of the specification: \<open>j\<close> is the earliest
  position of a maximal entry, and \<open>k\<close> is the earliest position of a maximal entry
  among the others.
\<close>

definition is_best :: "'a::linorder list \<Rightarrow> nat \<Rightarrow> bool" where
  "is_best xs j =
     (j < length xs \<and> (\<forall>i\<in>{0..<length xs}. xs ! i \<le> xs ! j) \<and> (\<forall>i\<in>{0..<j}. xs ! i < xs ! j))"

definition is_second :: "'a::linorder list \<Rightarrow> nat \<Rightarrow> nat \<Rightarrow> bool" where
  "is_second xs j k =
     (k < length xs \<and> k \<noteq> j \<and>
      (\<forall>i\<in>{0..<length xs}. i \<noteq> j \<longrightarrow> xs ! i \<le> xs ! k) \<and>
      (\<forall>i\<in>{0..<k}. i \<noteq> j \<longrightarrow> xs ! i < xs ! k))"

section \<open>The training loop\<close>

lemma local_index_eq: "local_index index i = (if Suc i mod 10 = 0 then index else 0)"
  unfolding local_index_def by (simp add: zmod_int[symmetric] del: of_nat_Suc) presburger

lemma train_loop_length: "length (train_loop pd index) = 500"
  by (simp add: train_loop_def)

lemma train_loop_nth: "i < 500 \<Longrightarrow> train_loop pd index ! i = train_iter pd index i"
  by (simp add: train_loop_def)

lemma tenth_iterations: "{i. i < 500 \<and> Suc i mod 10 = 0} = (\<lambda>k. 10 * k + 9) ` {..<50::nat}"
proof (rule set_eqI, rule iffI)
  fix i :: nat
  assume "i \<in> {i. i < 500 \<and> Suc i mod 10 = 0}"
  then have a: "i < 500" and b: "Suc i mod 10 = 0" by simp_all
  from b have "i = 10 * (i div 10) + 9" by presburger
  moreover from a have "i div 10 < 50" by simp
  ultimately show "i \<in> (\<lambda>k. 10 * k + 9) ` {..<50::nat}" by blast
next
  fix i :: nat
  assume "i \<in> (\<lambda>k. 10 * k + 9) ` {..<50::nat}"
  then obtain k where "k < 50" "i = 10 * k + 9" by auto
  then show "i \<in> {i. i < 500 \<and> Suc i mod 10 = 0}" by simp
qed

lemma count_tenth: "card {i. i < 500 \<and> Suc i mod 10 = 0} = 50"
proof -
  have "inj_on (\<lambda>k::nat. 10 * k + 9) {..<50}" by (rule inj_onI) simp
  then show ?thesis by (simp add: tenth_iterations card_image)
qed

text \<open>
  C9. The training loop of a round runs 500 iterations. The iteration at 0-based
  position \<open>i\<close> selects the target index when its 1-based position \<open>i + 1\<close> is a
  multiple of 10, and index 0 otherwise; 50 of the 500 positions are such multiples.
\<close>

theorem train_loop_selection:
  "length (train_loop pd index) = 500 \<and>
   (\<forall>i<500. selected (train_loop pd index ! i) = (if Suc i mod 10 = 0 then index else 0)) \<and>
   card {i. i < 500 \<and> Suc i mod 10 = 0} = 50"
  by (simp add: train_loop_length train_loop_nth train_iter_def Let_def local_index_eq count_tenth)

theorem train_loop_selection_witness:
  "(9::nat) < 500 \<and> selected (train_loop (\<lambda>a. 7) 4096 ! 9) = 4096 \<and>
   (3::nat) < 500 \<and> selected (train_loop (\<lambda>a. 7) 4096 ! 3) = 0"
  using train_loop_selection [of "\<lambda>a. 7" 4096] by simp

text \<open>
  C7, as the code has it. \<open>index\<close> and \<open>*slow_size\<close> are signed, so the check
  \<open>local_index < *slow_size\<close> fails exactly for the positive indices. For every target
  index that is at least 1 the check fails on the iterations that select it, the
  guarded read is executed on the other iterations only, and it reads the line that
  \<open>private_data[0]\<close> selects.
\<close>

theorem bounds_check_positive_index:
  "1 \<le> index \<Longrightarrow>
     \<not> index < slow_size \<and>
     (\<forall>i<500. line_read (train_loop pd index ! i) =
        (if Suc i mod 10 = 0 then None else Some (pd 0))) \<and>
     (\<forall>e \<in> set (train_loop pd index). line_read e \<noteq> None \<longrightarrow> selected e = 0)"
  by (auto simp: train_loop_def train_iter_def Let_def local_index_eq slow_size_def)

theorem bounds_check_positive_index_witness:
  "(1::int) \<le> 4096 \<and> \<not> (4096::int) < slow_size \<and>
   line_read (train_loop (\<lambda>a. 7) 4096 ! 9) = None \<and>
   line_read (train_loop (\<lambda>a. 7) 4096 ! 3) = Some 7 \<and>
   selected (train_loop (\<lambda>a. 7) 4096 ! 3) = 0"
proof -
  note T = bounds_check_positive_index [of 4096 "\<lambda>a. 7"]
  have mem: "train_loop (\<lambda>a. 7) 4096 ! 3 \<in> set (train_loop (\<lambda>a. 7) 4096)"
    by (rule nth_mem) (simp add: train_loop_length)
  from T have rd: "line_read (train_loop (\<lambda>a. 7) 4096 ! 3) = Some 7"
    "line_read (train_loop (\<lambda>a. 7) 4096 ! 9) = None" by simp_all
  from T mem rd have "selected (train_loop (\<lambda>a. 7) 4096 ! 3) = 0" by auto
  with T rd show ?thesis by simp
qed

text \<open>
  The claim as stated (every index other than 0) fails for a negative index: with
  \<open>index = -1\<close> the check passes on the tenth iteration, which selects \<open>-1\<close> and reads
  the line that \<open>private_data[-1]\<close> selects.
\<close>

theorem bounds_check_negative_index_counterexample:
  "(-1::int) \<noteq> 0 \<and> (-1::int) < slow_size \<and>
   selected (train_loop (\<lambda>a. if a = -1 then 72 else 7) (-1) ! 9) = -1 \<and>
   line_read (train_loop (\<lambda>a. if a = -1 then 72 else 7) (-1) ! 9) = Some 72"
  by (simp add: train_loop_nth train_iter_def Let_def local_index_def slow_size_def)


section \<open>The measurement pass\<close>

lemma shuffled_eq: "shuffled i = (167 * i + 13) mod 256"
proof -
  have "(int i * 167 + 13) AND 255 = take_bit 8 (int i * 167 + 13)"
    by (simp add: take_bit_eq_mask mask_eq_exp_minus_1)
  also have "\<dots> = (int i * 167 + 13) mod 256"
    by (simp add: take_bit_eq_mod)
  also have "\<dots> = int ((167 * i + 13) mod 256)"
    by (simp add: zmod_int mult.commute)
  finally show ?thesis by (simp add: shuffled_def)
qed

lemma affine_mod: "(a * (x mod m) + b) mod m = (a * x + b) mod (m::nat)"
  by (metis mod_add_left_eq mod_mult_right_eq)

lemma shuffled_less: "shuffled i < 256"
  by (simp add: shuffled_eq)

lemma unshuffled_less: "unshuffled j < 256"
  by (simp add: unshuffled_def)

lemma unshuffled_shuffled: "i < 256 \<Longrightarrow> unshuffled (shuffled i) = i"
proof -
  assume i: "i < 256"
  have "(23 * ((167 * i + 13) mod 256) + 213) mod 256 = (23 * (167 * i + 13) + 213) mod 256"
    by (rule affine_mod)
  also have "23 * (167 * i + 13) + 213 = i + 256 * (15 * i + 2)"
    by simp
  also have "(i + 256 * (15 * i + 2)) mod 256 = i"
    using i by (simp only: mod_mult_self2 mod_less)
  finally show ?thesis by (simp add: shuffled_eq unshuffled_def)
qed

lemma shuffled_unshuffled: "j < 256 \<Longrightarrow> shuffled (unshuffled j) = j"
proof -
  assume j: "j < 256"
  have "(167 * ((23 * j + 213) mod 256) + 13) mod 256 = (167 * (23 * j + 213) + 13) mod 256"
    by (rule affine_mod)
  also have "167 * (23 * j + 213) + 13 = j + 256 * (15 * j + 139)"
    by simp
  also have "(j + 256 * (15 * j + 139)) mod 256 = j"
    using j by (simp only: mod_mult_self2 mod_less)
  finally show ?thesis by (simp add: shuffled_eq unshuffled_def)
qed

lemma shuffled_bij: "bij_betw shuffled {0..<256} {0..<256}"
  by (rule bij_betw_byWitness [where f' = unshuffled])
     (auto simp: shuffled_less unshuffled_less unshuffled_shuffled shuffled_unshuffled)

lemma shuffled_inj: "i < 256 \<Longrightarrow> i' < 256 \<Longrightarrow> shuffled i = shuffled i' \<Longrightarrow> i = i'"
  by (metis unshuffled_shuffled)

lemma measure_fold_Suc:
  "fold (measure_step lat) [0..<Suc n] s = measure_step lat n (fold (measure_step lat) [0..<n] s)"
  by simp

lemma measure_fold_visited:
  "fst (fold (measure_step lat) [0..<n] (vis, tms)) = vis @ map shuffled [0..<n]"
  by (induction n) (simp_all add: measure_step_def split_beta)

lemma measure_fold_length:
  "length (snd (fold (measure_step lat) [0..<n] (vis, tms))) = length tms"
  by (induction n) (simp_all add: measure_step_def split_beta)

lemma measure_fold_nth:
  "n \<le> 256 \<Longrightarrow> length tms = 256 \<Longrightarrow> i < n \<Longrightarrow>
     snd (fold (measure_step lat) [0..<n] (vis, tms)) ! shuffled i = lat i"
proof (induction n)
  case 0
  then show ?case by simp
next
  case (Suc n)
  let ?s = "fold (measure_step lat) [0..<n] (vis, tms)"
  have len: "length (snd ?s) = 256" using Suc.prems by (simp add: measure_fold_length)
  have step: "snd (fold (measure_step lat) [0..<Suc n] (vis, tms)) = (snd ?s)[shuffled n := lat n]"
    by (simp add: measure_step_def split_beta)
  show ?case
  proof (cases "i = n")
    case True
    then show ?thesis using len by (simp only: step) (simp add: shuffled_less)
  next
    case False
    then have i: "i < n" using Suc.prems by simp
    then have "shuffled i \<noteq> shuffled n" using Suc.prems shuffled_inj [of i n] by auto
    moreover have "snd ?s ! shuffled i = lat i" using Suc.IH Suc.prems i by simp
    ultimately show ?thesis by (simp only: step) simp
  qed
qed

lemma measure_pass_visited: "fst (measure_pass lat tms) = map shuffled [0..<256]"
  by (simp add: measure_pass_def NUM_LINES_def measure_fold_visited)

lemma measure_pass_length: "length (snd (measure_pass lat tms)) = length tms"
  by (simp add: measure_pass_def measure_fold_length)

lemma measure_pass_nth_shuffled:
  "length tms = 256 \<Longrightarrow> i < 256 \<Longrightarrow> snd (measure_pass lat tms) ! shuffled i = lat i"
  by (simp add: measure_pass_def NUM_LINES_def measure_fold_nth)

lemma measure_pass_nth:
  "length tms = 256 \<Longrightarrow> j < 256 \<Longrightarrow> snd (measure_pass lat tms) ! j = lat (unshuffled j)"
  using measure_pass_nth_shuffled [of tms "unshuffled j" lat]
  by (simp add: shuffled_unshuffled unshuffled_less)

lemma visit_order_distinct: "distinct (map shuffled [0..<256])"
  by (simp add: distinct_map) (auto intro!: inj_onI dest: shuffled_inj)

lemma visit_order_set: "set (map shuffled [0..<256]) = {0..<256}"
  using shuffled_bij by (auto simp: bij_betw_def)

lemma count_list_distinct: "distinct xs \<Longrightarrow> x \<in> set xs \<Longrightarrow> count_list xs x = 1"
  by (induction xs) auto

lemma visit_order_count: "j < 256 \<Longrightarrow> count_list (map shuffled [0..<256]) j = 1"
  by (rule count_list_distinct [OF visit_order_distinct]) (simp only: visit_order_set, simp)

text \<open>
  C5. The measurement pass visits the lines in the order \<open>i \<mapsto> (167 * i + 13) mod 256\<close>,
  whatever the latencies and the previous contents of \<open>times\<close> are, so the order is the
  same in every round of every call. The map is a bijection on \<open>0..255\<close> that is not the
  index order (it sends 0 to 13). Every line is visited exactly once, and after the pass
  the entry of the line visited at position \<open>i\<close> holds the latency measured there.
\<close>

theorem measurement_visit_order:
  "shuffled i = (167 * i + 13) mod 256 \<and>
   bij_betw shuffled {0..<256} {0..<256} \<and>
   shuffled 0 \<noteq> 0 \<and>
   fst (measure_pass lat tms) = map (\<lambda>i. (167 * i + 13) mod 256) [0..<256] \<and>
   (\<forall>j<256. count_list (fst (measure_pass lat tms)) j = 1) \<and>
   (length tms = 256 \<longrightarrow> (\<forall>i<256. snd (measure_pass lat tms) ! shuffled i = lat i))"
proof (intro conjI)
  show "shuffled i = (167 * i + 13) mod 256" by (rule shuffled_eq)
  show "bij_betw shuffled {0..<256} {0..<256}" by (rule shuffled_bij)
  show "shuffled 0 \<noteq> 0" by (simp add: shuffled_eq)
  have "map shuffled [0..<256] = map (\<lambda>i. (167 * i + 13) mod 256) [0..<256]"
    by (rule map_cong) (simp_all only: shuffled_eq)
  then show "fst (measure_pass lat tms) = map (\<lambda>i. (167 * i + 13) mod 256) [0..<256]"
    by (simp only: measure_pass_visited)
  show "\<forall>j<256. count_list (fst (measure_pass lat tms)) j = 1"
    by (simp only: measure_pass_visited) (blast intro: visit_order_count)
  show "length tms = 256 \<longrightarrow> (\<forall>i<256. snd (measure_pass lat tms) ! shuffled i = lat i)"
    by (simp add: measure_pass_nth_shuffled)
qed

theorem measurement_visit_order_witness:
  "shuffled 5 = 80 \<and> count_list (fst (measure_pass (\<lambda>i. 100) (replicate 256 0))) 13 = 1 \<and>
   length (replicate 256 (0::int64)) = 256 \<and>
   snd (measure_pass (\<lambda>i. word_of_nat (100 + i)) (replicate 256 0)) ! 80 = 105"
proof -
  note T = measurement_visit_order [of 5 "\<lambda>i. word_of_nat (100 + i)" "replicate 256 0"]
  note U = measurement_visit_order [of 5 "\<lambda>i. 100" "replicate 256 0"]
  from T have a: "shuffled 5 = 80" by simp
  from U have "\<forall>j<256. count_list (fst (measure_pass (\<lambda>i. 100) (replicate 256 0))) j = 1"
    by (elim conjE)
  then have b: "count_list (fst (measure_pass (\<lambda>i. 100) (replicate 256 0))) 13 = 1"
    by simp
  from T have "\<forall>i<256. snd (measure_pass (\<lambda>i. word_of_nat (100 + i)) (replicate 256 0)) ! shuffled i
      = word_of_nat (100 + i)"
    by (elim conjE) simp
  then have "snd (measure_pass (\<lambda>i. word_of_nat (100 + i)) (replicate 256 0)) ! shuffled 5
      = word_of_nat (100 + 5)"
    by (rule allE [where x = 5]) simp
  then have c: "snd (measure_pass (\<lambda>i. word_of_nat (100 + i)) (replicate 256 0)) ! 80 = 105"
    by (simp add: a)
  from a b c show ?thesis by simp
qed


section \<open>\<open>get_top_two\<close>\<close>

lemma top_two_upto_0: "top_two_upto xs 0 = (0, 0)"
  by (simp add: top_two_upto_def)

lemma top_two_upto_Suc: "top_two_upto xs (Suc n) = top_two_step xs n (top_two_upto xs n)"
  by (simp add: top_two_upto_def)

text \<open>
  What the loop of \<open>get_top_two\<close> maintains after \<open>n\<close> entries: \<open>j\<close> is the earliest
  maximum of the prefix; \<open>k\<close> is the earliest maximum of the others once some entry
  has exceeded the first one, and is still the first position (as \<open>j\<close> is) before.
\<close>

lemma top_two_upto_inv:
  "0 < n \<Longrightarrow> top_two_upto xs n = (j, k) \<Longrightarrow>
     j < n \<and> k < n \<and> (\<forall>i<n. xs ! i \<le> xs ! j) \<and> (\<forall>i<j. xs ! i < xs ! j) \<and>
     (j = 0 \<longrightarrow> k = 0) \<and>
     (j \<noteq> 0 \<longrightarrow> k \<noteq> j \<and> (\<forall>i<n. i \<noteq> j \<longrightarrow> xs ! i \<le> xs ! k) \<and> (\<forall>i<k. i \<noteq> j \<longrightarrow> xs ! i < xs ! k))"
proof (induction n arbitrary: j k)
  case 0
  then show ?case by simp
next
  case (Suc n)
  show ?case
  proof (cases "n = 0")
    case True
    with Suc.prems show ?thesis
      by (simp add: top_two_upto_Suc top_two_upto_0)
  next
    case False
    obtain j0 k0 where old: "top_two_upto xs n = (j0, k0)" by (cases "top_two_upto xs n")
    from False have n: "0 < n" by simp
    note IH = Suc.IH [OF n old]
    from Suc.prems old have new: "top_two_step xs n (j0, k0) = (j, k)"
      by (simp add: top_two_upto_Suc)
    consider (first) "xs ! j0 < xs ! n" | (second) "\<not> xs ! j0 < xs ! n" "xs ! k0 < xs ! n"
      | (keep) "\<not> xs ! j0 < xs ! n" "\<not> xs ! k0 < xs ! n" by blast
    then show ?thesis
    proof cases
      case first
      with new have jk: "j = n" "k = j0" by simp_all
      have a: "\<forall>i<Suc n. xs ! i \<le> xs ! n" using IH first by (auto simp: less_Suc_eq)
      have b: "\<forall>i<n. xs ! i < xs ! n" using IH first by (meson le_less_trans)
      have c: "\<forall>i<Suc n. i \<noteq> n \<longrightarrow> xs ! i \<le> xs ! j0" using IH by (auto simp: less_Suc_eq)
      have d: "\<forall>i<j0. i \<noteq> n \<longrightarrow> xs ! i < xs ! j0" using IH by blast
      from IH n a b c d show ?thesis unfolding jk by auto
    next
      case second
      with new have jk: "j = j0" "k = n" by simp_all
      from second IH have j0: "j0 \<noteq> 0" by (cases "j0 = 0") auto
      have a: "\<forall>i<Suc n. xs ! i \<le> xs ! j0" using IH second by (auto simp: less_Suc_eq)
      have c: "\<forall>i<Suc n. i \<noteq> j0 \<longrightarrow> xs ! i \<le> xs ! n"
        using IH second j0 by (auto simp: less_Suc_eq intro: order.trans less_imp_le)
      have d: "\<forall>i<n. i \<noteq> j0 \<longrightarrow> xs ! i < xs ! n"
        using IH second j0 by (meson le_less_trans)
      from IH n a c d j0 show ?thesis unfolding jk by auto
    next
      case keep
      with new have jk: "j = j0" "k = k0" by simp_all
      have a: "\<forall>i<Suc n. xs ! i \<le> xs ! j0" using IH keep by (auto simp: less_Suc_eq)
      have c: "j0 \<noteq> 0 \<longrightarrow> (\<forall>i<Suc n. i \<noteq> j0 \<longrightarrow> xs ! i \<le> xs ! k0)"
        using IH keep by (auto simp: less_Suc_eq)
      from IH n a c show ?thesis unfolding jk by auto
    qed
  qed
qed

lemma top_two_upto_first_max:
  "(\<forall>i<n. xs ! i \<le> xs ! 0) \<Longrightarrow> top_two_upto xs n = (0, 0)"
proof (induction n)
  case 0
  then show ?case by (simp add: top_two_upto_0)
next
  case (Suc n)
  then have "top_two_upto xs n = (0, 0)" by simp
  moreover from Suc.prems have "\<not> xs ! 0 < xs ! n" by (simp add: not_less)
  ultimately show ?case by (simp add: top_two_upto_Suc)
qed

text \<open>The first component is the earliest maximum, for every non-empty vector.\<close>

lemma get_top_two_best: "xs \<noteq> [] \<Longrightarrow> is_best xs (fst (get_top_two xs))"
proof -
  assume "xs \<noteq> []"
  then have n: "0 < length xs" by simp
  obtain j k where jk: "top_two_upto xs (length xs) = (j, k)" by (cases "top_two_upto xs (length xs)")
  from top_two_upto_inv [OF n jk] show ?thesis
    by (simp add: is_best_def get_top_two_def jk)
qed

text \<open>The second component is right when some entry exceeds the first one.\<close>

lemma get_top_two_second:
  "i < length xs \<Longrightarrow> xs ! 0 < xs ! i \<Longrightarrow>
     is_second xs (fst (get_top_two xs)) (snd (get_top_two xs))"
proof -
  assume i: "i < length xs" and gt: "xs ! 0 < xs ! i"
  from i have n: "0 < length xs" by (cases xs) simp_all
  obtain j k where jk: "top_two_upto xs (length xs) = (j, k)" by (cases "top_two_upto xs (length xs)")
  note inv = top_two_upto_inv [OF n jk]
  have "j \<noteq> 0"
  proof
    assume "j = 0"
    with inv i have "xs ! i \<le> xs ! 0" by simp
    with gt show False by simp
  qed
  with inv show ?thesis
    by (simp add: is_second_def get_top_two_def jk)
qed

text \<open>When no entry exceeds the first one, both components are the first position.\<close>

lemma get_top_two_first_max:
  "(\<forall>i<length xs. xs ! i \<le> xs ! 0) \<Longrightarrow> get_top_two xs = (0, 0)"
  by (simp add: get_top_two_def top_two_upto_first_max)

lemma is_best_unique: "is_best xs j \<Longrightarrow> is_best xs j' \<Longrightarrow> j = j'"
  unfolding is_best_def
  by (metis atLeastLessThan_iff le0 linorder_neqE_nat not_less)

lemma is_second_unique: "is_second xs j k \<Longrightarrow> is_second xs j k' \<Longrightarrow> k = k'"
  unfolding is_second_def
  by (metis atLeastLessThan_iff le0 linorder_neqE_nat not_less)

lemma failing_vector_nth:
  "i < 256 \<Longrightarrow> (5 # 3 # replicate 254 (0::int)) ! i = (if i = 0 then 5 else if i = 1 then 3 else 0)"
  by (cases i; cases "i - 1") (simp_all add: nth_Cons')

text \<open>
  C2, at a vector whose maximum is the first entry. \<open>scores[0] = 5\<close>, \<open>scores[1] = 3\<close>
  and the other 254 entries are 0: the second best is position 1, and \<open>get_top_two\<close>
  returns position 0 for both, since \<open>k\<close> starts at \<open>begin\<close> and no later entry is
  greater than \<open>*k\<close>.
\<close>

theorem get_top_two_first_max_failing:
  "get_top_two (5 # 3 # replicate 254 (0::int)) = (0, 0) \<and>
   is_best (5 # 3 # replicate 254 (0::int)) 0 \<and>
   is_second (5 # 3 # replicate 254 (0::int)) 0 1 \<and>
   \<not> is_second (5 # 3 # replicate 254 (0::int)) 0 0"
proof -
  define ex where "ex = 5 # 3 # replicate 254 (0::int)"
  have len: "length ex = 256" by (simp add: ex_def)
  have nth: "ex ! i = (if i = 0 then 5 else if i = 1 then 3 else 0)" if "i < 256" for i
    unfolding ex_def using that by (rule failing_vector_nth)
  have "get_top_two ex = (0, 0)"
    by (rule get_top_two_first_max) (simp add: len nth)
  moreover have "is_best ex 0"
    by (simp add: is_best_def len nth)
  moreover have "is_second ex 0 1"
    by (simp add: is_second_def len nth)
  moreover have "\<not> is_second ex 0 0"
    by (simp add: is_second_def)
  ultimately show ?thesis
    unfolding ex_def by simp
qed

theorem get_top_two_first_max_failing_witness:
  "snd (get_top_two (5 # 3 # replicate 254 (0::int))) \<noteq> 1"
  using get_top_two_first_max_failing by simp


section \<open>Mean and scoring\<close>

lemma accumulate_step_sint:
  "sint (accumulate_step t acc) = signed_take_bit 31 (sint acc + sint t)"
proof -
  have "sint (accumulate_step t acc) = signed_take_bit 31 (uint ((scast acc :: int64) + t))"
    by (simp add: accumulate_step_def signed_ucast_eq)
  also have "\<dots> = signed_take_bit 31 (take_bit 64 (sint ((scast acc :: int64) + t)))"
    by (simp add: uint_sint)
  also have "\<dots> = signed_take_bit 31 (sint ((scast acc :: int64) + t))"
    by (simp add: signed_take_bit_take_bit)
  also have "\<dots> = signed_take_bit 31 (signed_take_bit 63 (sint (scast acc :: int64) + sint t))"
    by (simp add: sint_word_add)
  also have "\<dots> = signed_take_bit 31 (sint (scast acc :: int64) + sint t)"
    by simp
  also have "sint (scast acc :: int64) = sint acc"
    by (simp add: signed_scast_eq signed_take_bit_int_eq_self_iff)
       (use sint_ge [of acc] sint_lt [of acc] in simp)
  finally show ?thesis .
qed

lemma sdiv_bounds:
  "- 2147483648 \<le> x \<Longrightarrow> x < 2147483648 \<Longrightarrow>
     - 2147483648 \<le> x sdiv 256 \<and> x sdiv 256 < (2147483648::int)"
  unfolding signed_divide_int_def sgn_if by (cases "0 < x"; cases "x = 0") (simp_all, linarith+)

lemma signed_take_bit_add_left:
  "signed_take_bit n (signed_take_bit n k + l) = signed_take_bit n (k + l)" for k l :: int
  by (metis signed_take_bit_add signed_take_bit_signed_take_bit min.idem)

lemma accumulate_fold_sint:
  "sint (fold accumulate_step tms acc) = signed_take_bit 31 (sint acc + sum_list (map sint tms))"
proof (induction tms arbitrary: acc)
  case Nil
  show ?case using sint_ge [of acc] sint_lt [of acc]
    by (simp add: signed_take_bit_int_eq_self)
next
  case (Cons t tms)
  show ?case
    by (simp add: Cons.IH accumulate_step_sint signed_take_bit_add_left add.assoc)
qed

text \<open>The sum that \<open>std::accumulate\<close> returns is the exact sum wrapped to 32 bits.\<close>

lemma accumulate_sint: "sint (accumulate tms) = signed_take_bit 31 (sum_list (map sint tms))"
  by (simp add: accumulate_def accumulate_fold_sint)

lemma t_avg_sint: "sint (t_avg tms) = sint (accumulate tms) sdiv 256"
proof -
  have "- (2 ^ 31) \<le> sint (accumulate tms) sdiv 256 \<and> sint (accumulate tms) sdiv 256 < 2 ^ 31"
    using sint_ge [of "accumulate tms"] sint_lt [of "accumulate tms"]
    by (simp add: sdiv_bounds)
  then show ?thesis
    by (simp add: t_avg_def NUM_LINES_def sint_sbintrunc' signed_take_bit_int_eq_self)
qed

text \<open>The mean is exact when the sum of the samples fits an \<open>int\<close>.\<close>

lemma t_avg_exact:
  "- (2 ^ 31) \<le> sum_list (map sint tms) \<Longrightarrow> sum_list (map sint tms) < 2 ^ 31 \<Longrightarrow>
     sint (t_avg tms) = sum_list (map sint tms) sdiv 256"
  by (simp add: t_avg_sint accumulate_sint signed_take_bit_int_eq_self)

lemma sum_list_sint_replicate:
  "sum_list (map sint (replicate n (w::int64))) = int n * sint w"
  by (simp add: sum_list_replicate)

text \<open>
  C8, at a round with one outlier. The sample of line 0 is \<open>2 ^ 32\<close> cycles and the
  other 255 samples are 100 cycles. The exact mean is 16777315; the accumulator keeps
  the low 32 bits of the sum after each addition, so the mean the scoring rule uses is 99.
\<close>

theorem t_avg_outlier_failing:
  "sint (t_avg (4294967296 # replicate 255 100)) = 99 \<and>
   sum_list (map sint (4294967296 # replicate 255 (100::int64))) div 256 = 16777315"
proof -
  have s: "sum_list (map sint (4294967296 # replicate 255 (100::int64))) = 4294992796"
    by (simp only: list.map sum_list.Cons sum_list_sint_replicate) simp
  have "sint (accumulate (4294967296 # replicate 255 100)) = 25500"
    by (simp only: accumulate_sint s) simp
  then have "sint (t_avg (4294967296 # replicate 255 100)) = 99"
    by (simp only: t_avg_sint) (simp add: signed_divide_int_def)
  then show ?thesis by (simp only: s) simp
qed

lemma sint_scast_cint: "sint (scast (w::cint) :: int64) = sint w"
  using sint_ge [of w] sint_lt [of w]
  by (simp add: signed_scast_eq signed_take_bit_int_eq_self_iff)

lemma is_fast_sint: "is_fast tms i = (sint (tms ! i * 2) < sint (t_avg tms))"
  by (simp add: is_fast_def word_sless_alt sint_scast_cint)

lemma sint_double:
  "- (2 ^ 62) \<le> sint (t::int64) \<Longrightarrow> sint t < 2 ^ 62 \<Longrightarrow> sint (t * 2) = 2 * sint t"
  by (simp add: sint_word_mult signed_take_bit_int_eq_self)

lemma score_fold_length: "length (fold (score_step pd0 tms) [0..<n] sc) = length sc"
  by (induction n) (simp_all add: score_step_def)

lemma score_fold_nth:
  "n \<le> length sc \<Longrightarrow> i < length sc \<Longrightarrow>
     fold (score_step pd0 tms) [0..<n] sc ! i =
       sc ! i + (if i < n \<and> is_fast tms i \<and> int i \<noteq> uint pd0 then 1 else 0)"
proof (induction n arbitrary: i)
  case 0
  then show ?case by simp
next
  case (Suc n)
  let ?f = "fold (score_step pd0 tms) [0..<n] sc"
  have step: "fold (score_step pd0 tms) [0..<Suc n] sc = score_step pd0 tms n ?f"
    by simp
  have len: "length ?f = length sc" by (rule score_fold_length)
  have IH: "?f ! i = sc ! i + (if i < n \<and> is_fast tms i \<and> int i \<noteq> uint pd0 then 1 else 0)"
    using Suc by simp
  have IHn: "?f ! n = sc ! n"
    using Suc.IH [of n] Suc.prems by simp
  show ?case
  proof (cases "i = n")
    case True
    then show ?thesis using Suc.prems IHn len
      by (simp only: step) (simp add: score_step_def)
  next
    case False
    then show ?thesis using Suc.prems IH len
      by (simp only: step) (auto simp: score_step_def less_Suc_eq)
  qed
qed

lemma score_pass_length: "length (score_pass pd0 tms sc) = length sc"
  by (simp add: score_pass_def score_fold_length)

lemma score_pass_nth:
  "length sc = 256 \<Longrightarrow> i < 256 \<Longrightarrow>
     score_pass pd0 tms sc ! i = sc ! i + (if is_fast tms i \<and> i \<noteq> unat pd0 then 1 else 0)"
proof -
  assume a: "length sc = 256" "i < 256"
  have "(int i \<noteq> uint pd0) = (i \<noteq> unat pd0)"
    by (simp only: uint_nat of_nat_eq_iff)
  with a show ?thesis
    unfolding score_pass_def NUM_LINES_def
    by (subst score_fold_nth) (simp_all del: upt_rec_numeral)
qed

lemma unat_uint8_less: "unat (w::uint8) < 256"
  using unsigned_less [of w, where 'a = nat] by simp

text \<open>
  C1, as the code has it. After the measurement pass of a round, every candidate whose
  doubled latency is below the round's mean, and which is not the candidate that the
  byte \<open>private_data[0]\<close> names, has its score incremented by exactly 1; every other
  score is unchanged. The candidate that never accumulates score is the value of
  \<open>private_data[0]\<close>, whatever the timings are.
\<close>

theorem score_pass_rule:
  "length sc = 256 \<Longrightarrow> i < 256 \<Longrightarrow>
     score_pass pd0 tms sc ! i = sc ! i + (if is_fast tms i \<and> i \<noteq> unat pd0 then 1 else 0) \<and>
     score_pass pd0 tms sc ! unat pd0 = sc ! unat pd0 \<and>
     (- (2 ^ 62) \<le> sint (tms ! i) \<and> sint (tms ! i) < 2 ^ 62 \<longrightarrow>
        is_fast tms i = (2 * sint (tms ! i) < sint (t_avg tms)))"
  by (simp add: score_pass_nth unat_uint8_less is_fast_sint sint_double)

lemma fast_line_0_nth:
  "i < 256 \<Longrightarrow> (0 # replicate 255 (100::int64)) ! i = (if i = 0 then 0 else 100)"
  by (cases i) simp_all

lemma fast_line_0_avg: "sint (t_avg (0 # replicate 255 100)) = 99"
proof -
  have s: "sum_list (map sint (0 # replicate 255 (100::int64))) = 25500"
    by (simp only: list.map sum_list.Cons sum_list_sint_replicate) simp
  show ?thesis
    by (simp only: t_avg_sint accumulate_sint s) (simp add: signed_divide_int_def)
qed

lemma fast_line_0_is_fast: "is_fast (0 # replicate 255 100) 0"
  by (simp only: is_fast_sint fast_line_0_avg) simp

theorem score_pass_rule_witness:
  "length (replicate 256 (0::int)) = 256 \<and>
   - (2 ^ 62) \<le> sint ((0 # replicate 255 (100::int64)) ! 0) \<and>
   sint ((0 # replicate 255 (100::int64)) ! 0) < 2 ^ 62 \<and>
   is_fast (0 # replicate 255 100) 0 \<and>
   score_pass 5 (0 # replicate 255 100) (replicate 256 0) ! 0 = 1 \<and>
   score_pass 5 (0 # replicate 255 100) (replicate 256 0) ! 5 = 0 \<and>
   score_pass 0 (0 # replicate 255 100) (replicate 256 0) ! 0 = 0"
proof -
  have len: "length (replicate 256 (0::int)) = 256" by simp
  have i0: "(0::nat) < 256" by simp
  note five = score_pass_rule [OF len i0, where ?pd0.0 = 5 and tms = "0 # replicate 255 100"]
  note zero = score_pass_rule [OF len i0, where ?pd0.0 = 0 and tms = "0 # replicate 255 100"]
  have rng: "- (2 ^ 62) \<le> sint ((0 # replicate 255 (100::int64)) ! 0)"
    "sint ((0 # replicate 255 (100::int64)) ! 0) < 2 ^ 62" by simp_all
  from five rng have "is_fast (0 # replicate 255 100) 0 =
      (2 * sint ((0 # replicate 255 (100::int64)) ! 0) < sint (t_avg (0 # replicate 255 100)))"
    by blast
  then have fast: "is_fast (0 # replicate 255 100) 0"
    by (simp only: fast_line_0_avg) simp
  from five have "score_pass 5 (0 # replicate 255 100) (replicate 256 0) ! 0 =
      replicate 256 0 ! 0 + (if is_fast (0 # replicate 255 100) 0 \<and> 0 \<noteq> unat (5::uint8) then 1 else 0)"
    by simp
  with fast have a: "score_pass 5 (0 # replicate 255 100) (replicate 256 0) ! 0 = 1" by simp
  from five have b: "score_pass 5 (0 # replicate 255 100) (replicate 256 0) ! unat (5::uint8)
      = replicate 256 0 ! unat (5::uint8)"
    by simp
  from zero have c: "score_pass 0 (0 # replicate 255 100) (replicate 256 0) ! unat (0::uint8)
      = replicate 256 0 ! unat (0::uint8)"
    by simp
  from len rng fast a b c show ?thesis by simp
qed

text \<open>
  The claim as stated (candidate 0 never accumulates score) fails when \<open>private_data[0]\<close>
  is not 0: with \<open>private_data[0] = 5\<close> and line 0 read in 0 cycles against 100 for the
  others, the score of candidate 0 goes from 0 to 1.
\<close>

theorem score_pass_index_0_counterexample:
  "score_pass 5 (0 # replicate 255 100) (replicate 256 0) ! 0 = 1"
  using fast_line_0_is_fast by (simp add: score_pass_nth)


section \<open>Rounds\<close>

lemma round_body_scores:
  "scores (round_body lt pd0 st) = score_pass pd0 (snd (measure_pass lt (times_arr st))) (scores st)"
  by (simp add: round_body_def Let_def)

lemma round_body_times:
  "times_arr (round_body lt pd0 st) = snd (measure_pass lt (times_arr st))"
  by (simp add: round_body_def Let_def)

lemma round_body_step:
  "length (scores st) = 256 \<Longrightarrow> i < 256 \<Longrightarrow>
     scores (round_body lt pd0 st) ! i =
       scores st ! i +
       (if is_fast (times_arr (round_body lt pd0 st)) i \<and> i \<noteq> unat pd0 then 1 else 0)"
  by (simp only: round_body_scores round_body_times score_pass_nth)

lemma state_after_lengths:
  "length (scores (state_after lat pd0 r)) = 256 \<and> length (times_arr (state_after lat pd0 r)) = 256"
  by (induction r)
     (simp_all add: init_state_def NUM_LINES_def round_body_scores round_body_times
        score_pass_length measure_pass_length)

lemma scores_after_length: "length (scores_after lat pd0 r) = 256"
  by (simp add: scores_after_def state_after_lengths)

lemma scores_after_0: "i < 256 \<Longrightarrow> scores_after lat pd0 0 ! i = 0"
  by (simp add: scores_after_def init_state_def NUM_LINES_def)

lemma scores_after_Suc:
  "i < 256 \<Longrightarrow>
     scores_after lat pd0 (Suc r) ! i =
       scores_after lat pd0 r ! i +
       (if is_fast (times_arr (state_after lat pd0 (Suc r))) i \<and> i \<noteq> unat pd0 then 1 else 0)"
  unfolding scores_after_def state_after.simps
  by (rule round_body_step) (simp_all add: state_after_lengths)

lemma scores_after_mono_step:
  "i < 256 \<Longrightarrow> scores_after lat pd0 r ! i \<le> scores_after lat pd0 (Suc r) ! i"
  by (simp add: scores_after_Suc)

lemma scores_after_mono:
  "i < 256 \<Longrightarrow> r \<le> r' \<Longrightarrow> scores_after lat pd0 r ! i \<le> scores_after lat pd0 r' ! i"
proof (induction r' )
  case 0
  then show ?case by simp
next
  case (Suc r')
  show ?case
  proof (cases "r = Suc r'")
    case True
    then show ?thesis by simp
  next
    case False
    with Suc.prems have "r \<le> r'" by simp
    with Suc have "scores_after lat pd0 r ! i \<le> scores_after lat pd0 r' ! i" by simp
    also have "\<dots> \<le> scores_after lat pd0 (Suc r') ! i"
      using Suc.prems by (simp add: scores_after_mono_step)
    finally show ?thesis .
  qed
qed

lemma scores_after_bounds:
  "i < 256 \<Longrightarrow> 0 \<le> scores_after lat pd0 r ! i \<and> scores_after lat pd0 r ! i \<le> int r"
proof (induction r)
  case 0
  then show ?case by (simp add: scores_after_0)
next
  case (Suc r)
  then show ?case by (simp add: scores_after_Suc)
qed

lemma get_top_two_bounds:
  "xs \<noteq> [] \<Longrightarrow> fst (get_top_two xs) < length xs \<and> snd (get_top_two xs) < length xs"
proof -
  assume "xs \<noteq> []"
  then have n: "0 < length xs" by simp
  obtain j k where jk: "top_two_upto xs (length xs) = (j, k)" by (cases "top_two_upto xs (length xs)")
  from top_two_upto_inv [OF n jk] show ?thesis
    by (simp add: get_top_two_def jk)
qed

lemma scores_after_top_bounds:
  "fst (get_top_two (scores_after lat pd0 r)) < 256 \<and> snd (get_top_two (scores_after lat pd0 r)) < 256"
proof -
  have "scores_after lat pd0 r \<noteq> []"
    using scores_after_length [of lat pd0 r] by auto
  from get_top_two_bounds [OF this] show ?thesis
    by (simp add: scores_after_length)
qed

lemma exit_fires_late: "exit_fires lat pd0 r \<Longrightarrow> 201 \<le> r"
proof -
  assume f: "exit_fires lat pd0 r"
  let ?sc = "scores_after lat pd0 r"
  let ?j = "fst (get_top_two ?sc)" and ?k = "snd (get_top_two ?sc)"
  have "?sc ! ?j \<le> int r" "0 \<le> ?sc ! ?k"
    using scores_after_top_bounds [of lat pd0 r] scores_after_bounds by simp_all
  moreover from f have "?sc ! ?k * 2 + 200 < ?sc ! ?j"
    by (simp add: exit_fires_def clear_winner_def)
  ultimately show ?thesis by linarith
qed

text \<open>When the check of the code fires, the pair it tracks is the top two of the vector.\<close>

lemma exit_fires_top_two:
  "exit_fires lat pd0 r \<Longrightarrow>
     is_best (scores_after lat pd0 r) (fst (get_top_two (scores_after lat pd0 r))) \<and>
     is_second (scores_after lat pd0 r) (fst (get_top_two (scores_after lat pd0 r)))
       (snd (get_top_two (scores_after lat pd0 r)))"
proof -
  assume f: "exit_fires lat pd0 r"
  let ?sc = "scores_after lat pd0 r"
  let ?j = "fst (get_top_two ?sc)" and ?k = "snd (get_top_two ?sc)"
  have ne: "?sc \<noteq> []" using scores_after_length [of lat pd0 r] by auto
  have best: "is_best ?sc ?j" by (rule get_top_two_best [OF ne])
  have gap: "?sc ! ?k * 2 + 200 < ?sc ! ?j"
    using f by (simp add: exit_fires_def clear_winner_def)
  have k0: "0 \<le> ?sc ! ?k"
    using scores_after_top_bounds [of lat pd0 r] scores_after_bounds by simp
  have "?sc ! 0 < ?sc ! ?j"
  proof (rule ccontr)
    assume "\<not> ?sc ! 0 < ?sc ! ?j"
    moreover have "\<forall>i<length ?sc. ?sc ! i \<le> ?sc ! ?j"
      using best by (simp add: is_best_def)
    ultimately have "\<forall>i<length ?sc. ?sc ! i \<le> ?sc ! 0"
      by (meson not_less order.trans)
    then have "get_top_two ?sc = (0, 0)" by (rule get_top_two_first_max)
    with gap k0 show False by simp
  qed
  moreover have "?j < length ?sc" using best by (simp add: is_best_def)
  ultimately have "is_second ?sc ?j ?k" by (rule get_top_two_second [rotated])
  with best show ?thesis by simp
qed

section \<open>\<open>leak_byte\<close>\<close>

lemma leak_rounds_unfold:
  "leak_rounds lat pd0 run st tp =
     (if run < 1000 then
        (if clear_winner (scores (round_body (lat run) pd0 st))
              (get_top_two (scores (round_body (lat run) pd0 st)))
         then \<lparr>byte = of_nat (fst (get_top_two (scores (round_body (lat run) pd0 st)))),
               out = '''', rounds = Suc run\<rparr>
         else leak_rounds lat pd0 (Suc run) (round_body (lat run) pd0 st)
                (get_top_two (scores (round_body (lat run) pd0 st))))
      else \<lparr>byte = of_nat (fst tp), out = ''[[[unlikely]]]:'', rounds = run\<rparr>)"
  by (subst leak_rounds.simps) (simp add: Let_def)

text \<open>From round \<open>run\<close> on, if the check fires first after round \<open>r0\<close>.\<close>

lemma leak_rounds_fires:
  "run < r0 \<Longrightarrow> r0 \<le> 1000 \<Longrightarrow> exit_fires lat pd0 r0 \<Longrightarrow>
   (\<forall>r. run < r \<and> r < r0 \<longrightarrow> \<not> exit_fires lat pd0 r) \<Longrightarrow>
     leak_rounds lat pd0 run (state_after lat pd0 run) tp =
       \<lparr>byte = of_nat (fst (get_top_two (scores_after lat pd0 r0))), out = '''', rounds = r0\<rparr>"
proof (induction "r0 - run" arbitrary: run tp)
  case 0
  then show ?case by simp
next
  case (Suc d)
  have run: "run < 1000" using Suc.prems by simp
  have st: "round_body (lat run) pd0 (state_after lat pd0 run) = state_after lat pd0 (Suc run)"
    by simp
  show ?case
  proof (cases "Suc run = r0")
    case True
    with Suc.prems have "clear_winner (scores (state_after lat pd0 (Suc run)))
        (get_top_two (scores (state_after lat pd0 (Suc run))))"
      by (simp add: exit_fires_def scores_after_def)
    with run True show ?thesis
      by (subst leak_rounds_unfold) (simp only: st, simp add: scores_after_def)
  next
    case False
    with Suc.prems have lt: "Suc run < r0" by simp
    with Suc.prems have "\<not> exit_fires lat pd0 (Suc run)" by simp
    then have nf: "\<not> clear_winner (scores (state_after lat pd0 (Suc run)))
        (get_top_two (scores (state_after lat pd0 (Suc run))))"
      by (simp add: exit_fires_def scores_after_def)
    have d: "d = r0 - Suc run" using Suc.hyps by simp
    have rest: "\<forall>r. Suc run < r \<and> r < r0 \<longrightarrow> \<not> exit_fires lat pd0 r"
      using Suc.prems by simp
    have "leak_rounds lat pd0 (Suc run) (state_after lat pd0 (Suc run))
            (get_top_two (scores (state_after lat pd0 (Suc run)))) =
          \<lparr>byte = of_nat (fst (get_top_two (scores_after lat pd0 r0))), out = '''', rounds = r0\<rparr>"
      using Suc.hyps(1) [OF d lt Suc.prems(2) Suc.prems(3) rest] .
    with run nf show ?thesis
      by (subst leak_rounds_unfold) (simp only: st, simp)
  qed
qed

text \<open>From round \<open>run\<close> on, if the check never fires.\<close>

lemma leak_rounds_never:
  "run \<le> 1000 \<Longrightarrow> (\<forall>r. run < r \<and> r \<le> 1000 \<longrightarrow> \<not> exit_fires lat pd0 r) \<Longrightarrow>
   run = 1000 \<longrightarrow> tp = get_top_two (scores_after lat pd0 1000) \<Longrightarrow>
     leak_rounds lat pd0 run (state_after lat pd0 run) tp =
       \<lparr>byte = of_nat (fst (get_top_two (scores_after lat pd0 1000))),
        out = ''[[[unlikely]]]:'', rounds = 1000\<rparr>"
proof (induction "1000 - run" arbitrary: run tp)
  case 0
  then have "run = 1000" by simp
  with "0.prems" show ?case
    by (subst leak_rounds_unfold) simp
next
  case (Suc d)
  then have run: "run < 1000" by simp
  have st: "round_body (lat run) pd0 (state_after lat pd0 run) = state_after lat pd0 (Suc run)"
    by simp
  from Suc.prems run have "\<not> exit_fires lat pd0 (Suc run)" by simp
  then have nf: "\<not> clear_winner (scores (state_after lat pd0 (Suc run)))
      (get_top_two (scores (state_after lat pd0 (Suc run))))"
    by (simp add: exit_fires_def scores_after_def)
  have d: "d = 1000 - Suc run" using Suc.hyps by simp
  have le: "Suc run \<le> 1000" using run by simp
  have rest: "\<forall>r. Suc run < r \<and> r \<le> 1000 \<longrightarrow> \<not> exit_fires lat pd0 r"
    using Suc.prems by simp
  have tp': "Suc run = 1000 \<longrightarrow>
      get_top_two (scores (state_after lat pd0 (Suc run))) = get_top_two (scores_after lat pd0 1000)"
    by (simp add: scores_after_def)
  have "leak_rounds lat pd0 (Suc run) (state_after lat pd0 (Suc run))
          (get_top_two (scores (state_after lat pd0 (Suc run)))) =
        \<lparr>byte = of_nat (fst (get_top_two (scores_after lat pd0 1000))),
         out = ''[[[unlikely]]]:'', rounds = 1000\<rparr>"
    using Suc.hyps(1) [OF d le rest tp'] .
  with run nf show ?case
    by (subst leak_rounds_unfold) (simp only: st, simp)
qed

lemma leak_byte_fires:
  "0 < r0 \<Longrightarrow> r0 \<le> 1000 \<Longrightarrow> exit_fires lat (pd 0) r0 \<Longrightarrow>
   (\<forall>r. 0 < r \<and> r < r0 \<longrightarrow> \<not> exit_fires lat (pd 0) r) \<Longrightarrow>
     leak_byte pd index lat =
       \<lparr>byte = of_nat (fst (get_top_two (scores_after lat (pd 0) r0))), out = '''', rounds = r0\<rparr>"
  using leak_rounds_fires [of 0 r0 lat "pd 0" "(0, 0)"]
  by (simp add: leak_byte_def)

lemma leak_byte_never:
  "(\<forall>r. 0 < r \<and> r \<le> 1000 \<longrightarrow> \<not> exit_fires lat (pd 0) r) \<Longrightarrow>
     leak_byte pd index lat =
       \<lparr>byte = of_nat (fst (get_top_two (scores_after lat (pd 0) 1000))),
        out = ''[[[unlikely]]]:'', rounds = 1000\<rparr>"
  using leak_rounds_never [of 0 lat "pd 0" "(0, 0)"]
  by (simp add: leak_byte_def)

text \<open>Either the check never fires in rounds 1 to 1000, or there is a first round where it does.\<close>

lemma first_firing_round:
  "(\<forall>r. 0 < r \<and> r \<le> 1000 \<longrightarrow> \<not> exit_fires lat pd0 r) \<or>
   (\<exists>r0. 0 < r0 \<and> r0 \<le> 1000 \<and> exit_fires lat pd0 r0 \<and>
      (\<forall>r. 0 < r \<and> r < r0 \<longrightarrow> \<not> exit_fires lat pd0 r))"
proof (cases "\<exists>r. 0 < r \<and> r \<le> 1000 \<and> exit_fires lat pd0 r")
  case False
  then show ?thesis by blast
next
  case True
  define P where "P r = (0 < r \<and> r \<le> 1000 \<and> exit_fires lat pd0 r)" for r
  from True have ex: "\<exists>r. P r" by (simp add: P_def)
  define r0 where "r0 = (LEAST r. P r)"
  have "P r0" unfolding r0_def using ex by (metis LeastI)
  moreover have "\<not> P r" if "r < r0" for r
    using that unfolding r0_def by (rule not_less_Least)
  ultimately show ?thesis
    unfolding P_def by (metis less_imp_le_nat order.strict_trans2 less_le_trans)
qed

text \<open>
  C6. A round never lowers a score: for every candidate, the score after the body
  of a round is at least the score before it, and within one call the score after a
  later round is at least the score after an earlier one.
\<close>

theorem scores_monotone:
  "i < 256 \<Longrightarrow>
     (length (scores st) = 256 \<longrightarrow> scores st ! i \<le> scores (round_body lt pd0 st) ! i) \<and>
     (r \<le> r' \<longrightarrow> scores_after lat pd0 r ! i \<le> scores_after lat pd0 r' ! i)"
  by (simp add: round_body_step scores_after_mono)

theorem scores_monotone_witness:
  "(3::nat) < 256 \<and> length (scores init_state) = 256 \<and>
   scores init_state ! 3 \<le> scores (round_body (\<lambda>i. 100) 0 init_state) ! 3 \<and>
   (2::nat) \<le> 5 \<and>
   scores_after (\<lambda>r i. 100) 0 2 ! 3 \<le> scores_after (\<lambda>r i. 100) 0 5 ! 3"
proof -
  have len: "length (scores init_state) = 256"
    by (simp add: init_state_def NUM_LINES_def)
  from scores_monotone [of 3 init_state "\<lambda>i. 100" 0 2 5 "\<lambda>r i. 100"] len
  show ?thesis by simp
qed

text \<open>
  C10. Within one call a score grows by at most 1 in a round, so after \<open>r\<close> rounds no
  score exceeds \<open>r\<close>. The check \<open>best > 2 * second + 200\<close> cannot hold after fewer
  than 201 rounds, and a call that returns without the marker has run at least 201
  rounds.
\<close>

theorem early_exit_not_before_201:
  "i < 256 \<Longrightarrow>
     scores_after lat (pd 0) (Suc r) ! i \<le> scores_after lat (pd 0) r ! i + 1 \<and>
     scores_after lat (pd 0) r ! i \<le> int r \<and>
     (exit_fires lat (pd 0) r \<longrightarrow> 201 \<le> r) \<and>
     (out (leak_byte pd index lat) \<noteq> ''[[[unlikely]]]:'' \<longrightarrow> 201 \<le> rounds (leak_byte pd index lat))"
proof (intro conjI impI)
  assume i: "i < 256"
  then show "scores_after lat (pd 0) (Suc r) ! i \<le> scores_after lat (pd 0) r ! i + 1"
    by (simp add: scores_after_Suc)
  from i show "scores_after lat (pd 0) r ! i \<le> int r"
    by (simp add: scores_after_bounds)
next
  assume "exit_fires lat (pd 0) r"
  then show "201 \<le> r" by (rule exit_fires_late)
next
  assume o: "out (leak_byte pd index lat) \<noteq> ''[[[unlikely]]]:''"
  from first_firing_round [of lat "pd 0"] show "201 \<le> rounds (leak_byte pd index lat)"
  proof
    assume "\<forall>r. 0 < r \<and> r \<le> 1000 \<longrightarrow> \<not> exit_fires lat (pd 0) r"
    then have "out (leak_byte pd index lat) = ''[[[unlikely]]]:''"
      by (simp add: leak_byte_never)
    with o show ?thesis by simp
  next
    assume "\<exists>r0. 0 < r0 \<and> r0 \<le> 1000 \<and> exit_fires lat (pd 0) r0 \<and>
      (\<forall>r. 0 < r \<and> r < r0 \<longrightarrow> \<not> exit_fires lat (pd 0) r)"
    then obtain r0 where r0: "0 < r0" "r0 \<le> 1000" "exit_fires lat (pd 0) r0"
      "\<forall>r. 0 < r \<and> r < r0 \<longrightarrow> \<not> exit_fires lat (pd 0) r" by blast
    then have "rounds (leak_byte pd index lat) = r0"
      by (simp add: leak_byte_fires [of r0 lat pd index])
    with exit_fires_late [OF r0(3)] show ?thesis by simp
  qed
qed

text \<open>
  C4. If the check fires in none of the rounds 1 to 1000, the call runs 1000 rounds,
  writes the marker \<open>[[[unlikely]]]:\<close> and returns the position of the earliest
  maximum of the final scores. A call that returns without the marker returns after a
  round \<open>r\<close> whose scores have a best entry \<open>j\<close> and a second-best entry \<open>k\<close> with
  \<open>scores[j] > 2 * scores[k] + 200\<close>, and it returns \<open>j\<close>.
\<close>

theorem round_cap_low_confidence:
  "((\<forall>r\<in>{1..1000}. \<not> exit_fires lat (pd 0) r) \<longrightarrow>
      rounds (leak_byte pd index lat) = 1000 \<and>
      out (leak_byte pd index lat) = ''[[[unlikely]]]:'' \<and>
      is_best (scores_after lat (pd 0) 1000) (unat (byte (leak_byte pd index lat)))) \<and>
   (out (leak_byte pd index lat) \<noteq> ''[[[unlikely]]]:'' \<longrightarrow>
      (\<exists>r\<in>{1..1000}. \<exists>j k.
         is_best (scores_after lat (pd 0) r) j \<and> is_second (scores_after lat (pd 0) r) j k \<and>
         scores_after lat (pd 0) r ! j > 2 * scores_after lat (pd 0) r ! k + 200 \<and>
         rounds (leak_byte pd index lat) = r \<and> unat (byte (leak_byte pd index lat)) = j))"
proof (intro conjI impI)
  assume nf: "\<forall>r\<in>{1..1000}. \<not> exit_fires lat (pd 0) r"
  then have nf': "\<forall>r. 0 < r \<and> r \<le> 1000 \<longrightarrow> \<not> exit_fires lat (pd 0) r" by simp
  note res = leak_byte_never [where lat = lat and pd = pd and index = index, OF nf']
  show "rounds (leak_byte pd index lat) = 1000" by (simp add: res)
  show "out (leak_byte pd index lat) = ''[[[unlikely]]]:''" by (simp add: res)
  let ?sc = "scores_after lat (pd 0) 1000"
  have ne: "?sc \<noteq> []" using scores_after_length [of lat "pd 0" 1000] by auto
  have "fst (get_top_two ?sc) < 256" using scores_after_top_bounds by simp
  then have "unat (word_of_nat (fst (get_top_two ?sc)) :: uint8) = fst (get_top_two ?sc)"
    by (simp add: unat_of_nat)
  with get_top_two_best [OF ne]
  show "is_best ?sc (unat (byte (leak_byte pd index lat)))" by (simp add: res)
next
  assume o: "out (leak_byte pd index lat) \<noteq> ''[[[unlikely]]]:''"
  from first_firing_round [of lat "pd 0"]
  show "\<exists>r\<in>{1..1000}. \<exists>j k.
         is_best (scores_after lat (pd 0) r) j \<and> is_second (scores_after lat (pd 0) r) j k \<and>
         scores_after lat (pd 0) r ! j > 2 * scores_after lat (pd 0) r ! k + 200 \<and>
         rounds (leak_byte pd index lat) = r \<and> unat (byte (leak_byte pd index lat)) = j"
  proof
    assume "\<forall>r. 0 < r \<and> r \<le> 1000 \<longrightarrow> \<not> exit_fires lat (pd 0) r"
    then have "out (leak_byte pd index lat) = ''[[[unlikely]]]:''"
      by (simp add: leak_byte_never)
    with o show ?thesis by simp
  next
    assume "\<exists>r0. 0 < r0 \<and> r0 \<le> 1000 \<and> exit_fires lat (pd 0) r0 \<and>
      (\<forall>r. 0 < r \<and> r < r0 \<longrightarrow> \<not> exit_fires lat (pd 0) r)"
    then obtain r0 where r0: "0 < r0" "r0 \<le> 1000" "exit_fires lat (pd 0) r0"
      "\<forall>r. 0 < r \<and> r < r0 \<longrightarrow> \<not> exit_fires lat (pd 0) r" by blast
    let ?sc = "scores_after lat (pd 0) r0"
    let ?j = "fst (get_top_two ?sc)" and ?k = "snd (get_top_two ?sc)"
    note res = leak_byte_fires [where lat = lat and pd = pd and index = index and ?r0.0 = r0, OF r0]
    have "?j < 256" using scores_after_top_bounds by simp
    then have u: "unat (word_of_nat ?j :: uint8) = ?j" by (simp add: unat_of_nat)
    have gap: "?sc ! ?j > 2 * ?sc ! ?k + 200"
      using r0(3) by (simp add: exit_fires_def clear_winner_def)
    from exit_fires_top_two [OF r0(3)] gap u r0(1,2) show ?thesis
      by (intro bexI [where x = r0] exI [where x = ?j] exI [where x = ?k]) (simp_all add: res)
  qed
qed

section \<open>Runs on hardware whose latency depends on the line only\<close>

lemma lat_lines_times:
  "length tms = 256 \<Longrightarrow> snd (measure_pass (lat_lines f run) tms) = map f [0..<256]"
proof (rule nth_equalityI)
  assume len: "length tms = 256"
  then show "length (snd (measure_pass (lat_lines f run) tms)) = length (map f [0..<256])"
    by (simp add: measure_pass_length)
  fix j
  assume "j < length (snd (measure_pass (lat_lines f run) tms))"
  then have j: "j < 256" using len by (simp add: measure_pass_length)
  with len show "snd (measure_pass (lat_lines f run) tms) ! j = map f [0..<256] ! j"
    by (simp add: measure_pass_nth lat_lines_def shuffled_unshuffled del: upt_rec_numeral)
qed

lemma lat_lines_state_times:
  "times_arr (state_after (lat_lines f) pd0 (Suc r)) = map f [0..<256]"
  by (simp only: state_after.simps round_body_times)
     (rule lat_lines_times, simp add: state_after_lengths)

lemma lat_lines_scores:
  "i < 256 \<Longrightarrow>
     scores_after (lat_lines f) pd0 r ! i =
       (if is_fast (map f [0..<256]) i \<and> i \<noteq> unat pd0 then int r else 0)"
proof (induction r)
  case 0
  then show ?case by (simp add: scores_after_0)
next
  case (Suc r)
  then show ?case
    by (simp only: scores_after_Suc lat_lines_state_times) simp
qed

lemma is_fast_map:
  "i < 256 \<Longrightarrow> is_fast (map f [0..<256]) i = (sint (f i * 2) < sint (t_avg (map f [0..<256])))"
  by (simp add: is_fast_sint del: upt_rec_numeral)

lemma sum_list_map_upt: "sum_list (map sint (map f [0..<n])) = (\<Sum>l = 0..<n. sint (f l))"
  by (simp add: interv_sum_list_conv_sum_set_nat comp_def)

lemma lat_flat_avg: "sint (t_avg (map lat_flat [0..<256])) = 100"
proof -
  have "sum_list (map sint (map lat_flat [0..<256])) = 25600"
    by (simp only: sum_list_map_upt lat_flat_def) simp
  then show ?thesis
    by (simp only: t_avg_sint accumulate_sint) (simp add: signed_divide_int_def)
qed

lemma lat_flat_not_fast: "i < 256 \<Longrightarrow> \<not> is_fast (map lat_flat [0..<256]) i"
  by (simp only: is_fast_map lat_flat_avg) (simp add: lat_flat_def)

lemma lat_warm_sint:
  "a \<noteq> b \<Longrightarrow>
     sint (lat_warm a b l) = 300 - (if l = a then 270 else 0) - (if l = b then 270 else 0)"
  by (simp add: lat_warm_def)

lemma lat_warm_avg:
  "a < 256 \<Longrightarrow> b < 256 \<Longrightarrow> a \<noteq> b \<Longrightarrow> sint (t_avg (map (lat_warm a b) [0..<256])) = 297"
proof -
  assume a: "a < 256" and b: "b < 256" and ab: "a \<noteq> b"
  have "(\<Sum>l = 0..<256. sint (lat_warm a b l)) =
        (\<Sum>l = 0..<256. 300 - (if l = a then 270 else 0) - (if l = b then 270 else (0::int)))"
    by (rule sum.cong) (simp_all only: lat_warm_sint [OF ab])
  also have "\<dots> = (\<Sum>l = 0..<256::nat. (300::int)) - (\<Sum>l = 0..<256. if l = a then 270 else 0)
        - (\<Sum>l = 0..<256. if l = b then 270 else 0)"
    by (simp only: sum_subtractf)
  also have "\<dots> = 76260"
    using a b by (simp only: sum.delta' sum_constant finite_atLeastLessThan) simp
  finally have "sum_list (map sint (map (lat_warm a b) [0..<256])) = 76260"
    by (simp only: sum_list_map_upt)
  then show ?thesis
    by (simp only: t_avg_sint accumulate_sint) (simp add: signed_divide_int_def)
qed

lemma lat_warm_fast:
  "a < 256 \<Longrightarrow> b < 256 \<Longrightarrow> a \<noteq> b \<Longrightarrow> i < 256 \<Longrightarrow>
     is_fast (map (lat_warm a b) [0..<256]) i = (i = a \<or> i = b)"
  by (simp add: is_fast_map lat_warm_avg lat_warm_def del: upt_rec_numeral)

text \<open>The top two of a vector with one positive entry.\<close>

lemma single_scorer_top_two:
  "length sc = 256 \<Longrightarrow> c < 256 \<Longrightarrow> 0 < v \<Longrightarrow>
   (\<forall>i<256. sc ! i = (if i = c then v else (0::int))) \<Longrightarrow>
     get_top_two sc = (if c = 0 then (0, 0) else (c, 0))"
proof (cases "c = 0")
  case True
  assume "length sc = 256" "0 < v" "\<forall>i<256. sc ! i = (if i = c then v else 0)"
  with True have "\<forall>i<length sc. sc ! i \<le> sc ! 0" by simp
  then have "get_top_two sc = (0, 0)" by (rule get_top_two_first_max)
  with True show ?thesis by simp
next
  case False
  assume len: "length sc = 256" and c: "c < 256" and v: "0 < v"
    and sc: "\<forall>i<256. sc ! i = (if i = c then v else 0)"
  have ne: "sc \<noteq> []" using len by auto
  have b: "is_best sc c" using len c v sc by (simp add: is_best_def)
  have s: "is_second sc c 0" using len c v sc False by (auto simp: is_second_def)
  have gt: "sc ! 0 < sc ! c" using c v sc False by simp
  have "fst (get_top_two sc) = c"
    using get_top_two_best [OF ne] b by (rule is_best_unique)
  moreover have "is_second sc (fst (get_top_two sc)) (snd (get_top_two sc))"
    using c gt len by (intro get_top_two_second [of c]) simp_all
  ultimately have "snd (get_top_two sc) = 0"
    using s by (simp add: is_second_unique)
  with \<open>fst (get_top_two sc) = c\<close> False show ?thesis by (simp add: prod_eq_iff)
qed

lemma no_scorer_top_two:
  "(\<forall>i<length sc. sc ! i = (0::int)) \<Longrightarrow> get_top_two sc = (0, 0)"
proof (rule get_top_two_first_max, intro allI impI)
  fix i
  assume z: "\<forall>i<length sc. sc ! i = 0" and i: "i < length sc"
  from i have "0 < length sc" by (cases sc) simp_all
  with z i show "sc ! i \<le> sc ! 0" by simp
qed

text \<open>Runs in which exactly one candidate \<open>c\<close> scores in every round.\<close>

lemma single_scorer_scores:
  "(\<forall>i<256. (is_fast (map f [0..<256]) i \<and> i \<noteq> unat pd0) = (i = c)) \<Longrightarrow> i < 256 \<Longrightarrow>
     scores_after (lat_lines f) pd0 r ! i = (if i = c then int r else 0)"
  by (simp add: lat_lines_scores del: upt_rec_numeral)

lemma single_scorer_fires:
  "(\<forall>i<256. (is_fast (map f [0..<256]) i \<and> i \<noteq> unat pd0) = (i = c)) \<Longrightarrow> c < 256 \<Longrightarrow>
     exit_fires (lat_lines f) pd0 r = (c \<noteq> 0 \<and> 200 < r)"
proof (cases "r = 0")
  case True
  assume "\<forall>i<256. (is_fast (map f [0..<256]) i \<and> i \<noteq> unat pd0) = (i = c)"
  then have "\<forall>i<length (scores_after (lat_lines f) pd0 r). scores_after (lat_lines f) pd0 r ! i = 0"
    using True by (simp add: scores_after_length scores_after_0)
  then have "get_top_two (scores_after (lat_lines f) pd0 r) = (0, 0)"
    by (rule no_scorer_top_two)
  then show ?thesis
    using True by (simp add: exit_fires_def clear_winner_def scores_after_0)
next
  case False
  assume F: "\<forall>i<256. (is_fast (map f [0..<256]) i \<and> i \<noteq> unat pd0) = (i = c)" and c: "c < 256"
  let ?sc = "scores_after (lat_lines f) pd0 r"
  have sc: "\<forall>i<256. ?sc ! i = (if i = c then int r else 0)"
    using single_scorer_scores [OF F, where r = r] by simp
  have "get_top_two ?sc = (if c = 0 then (0, 0) else (c, 0))"
    using False c sc by (intro single_scorer_top_two [where v = "int r"]) (simp_all add: scores_after_length)
  then show ?thesis
    using sc c by (auto simp: exit_fires_def clear_winner_def)
qed

lemma single_scorer_leak_byte:
  "(\<forall>i<256. (is_fast (map f [0..<256]) i \<and> i \<noteq> unat (pd 0)) = (i = c)) \<Longrightarrow> c < 256 \<Longrightarrow>
     leak_byte pd index (lat_lines f) =
       (if c = 0 then \<lparr>byte = 0, out = ''[[[unlikely]]]:'', rounds = 1000\<rparr>
        else \<lparr>byte = of_nat c, out = '''', rounds = 201\<rparr>)"
proof (cases "c = 0")
  case True
  assume F: "\<forall>i<256. (is_fast (map f [0..<256]) i \<and> i \<noteq> unat (pd 0)) = (i = c)" and c: "c < 256"
  have nf: "\<forall>r. 0 < r \<and> r \<le> 1000 \<longrightarrow> \<not> exit_fires (lat_lines f) (pd 0) r"
    using True by (simp add: single_scorer_fires [OF F c])
  let ?sc = "scores_after (lat_lines f) (pd 0) 1000"
  have "\<forall>i<256. ?sc ! i = (if i = c then 1000 else 0)"
    using single_scorer_scores [OF F, where r = 1000] by simp
  then have "get_top_two ?sc = (if c = 0 then (0, 0) else (c, 0))"
    using c by (intro single_scorer_top_two [where v = 1000]) (simp_all add: scores_after_length)
  with True show ?thesis
    by (simp add: leak_byte_never [where lat = "lat_lines f" and pd = pd and index = index, OF nf])
next
  case False
  assume F: "\<forall>i<256. (is_fast (map f [0..<256]) i \<and> i \<noteq> unat (pd 0)) = (i = c)" and c: "c < 256"
  have fires: "exit_fires (lat_lines f) (pd 0) 201"
    using False by (simp add: single_scorer_fires [OF F c])
  have before: "\<forall>r. 0 < r \<and> r < 201 \<longrightarrow> \<not> exit_fires (lat_lines f) (pd 0) r"
    by (simp add: single_scorer_fires [OF F c])
  let ?sc = "scores_after (lat_lines f) (pd 0) 201"
  have "\<forall>i<256. ?sc ! i = (if i = c then 201 else 0)"
    using single_scorer_scores [OF F, where r = 201] by simp
  then have "get_top_two ?sc = (if c = 0 then (0, 0) else (c, 0))"
    using c by (intro single_scorer_top_two [where v = 201]) (simp_all add: scores_after_length)
  with False show ?thesis
    by (simp add: leak_byte_fires [where lat = "lat_lines f" and pd = pd and index = index
          and ?r0.0 = 201, OF _ _ fires before])
qed

text \<open>
  Three runs. With flat latencies nobody scores. With \<open>private_data[0] = 0\<close> and the
  lines 0 and 72 warm, candidate 72 (\<open>H\<close>) scores. With \<open>private_data[0] = 1\<close> and the
  lines 1 and 0 warm (the protected byte is 0), candidate 0 scores.
\<close>

lemma flat_run_never_fires: "\<not> exit_fires (lat_lines lat_flat) pd0 r"
proof -
  have "\<forall>i<length (scores_after (lat_lines lat_flat) pd0 r). scores_after (lat_lines lat_flat) pd0 r ! i = 0"
    by (simp add: scores_after_length lat_lines_scores lat_flat_not_fast del: upt_rec_numeral)
  then have "get_top_two (scores_after (lat_lines lat_flat) pd0 r) = (0, 0)"
    by (rule no_scorer_top_two)
  moreover have "scores_after (lat_lines lat_flat) pd0 r ! 0 = 0"
    by (simp add: lat_lines_scores lat_flat_not_fast del: upt_rec_numeral)
  ultimately show ?thesis
    by (simp add: exit_fires_def clear_winner_def)
qed

lemma warm_H_scorer:
  "\<forall>i<256. (is_fast (map (lat_warm 0 72) [0..<256]) i \<and> i \<noteq> unat (0::uint8)) = (i = 72)"
  by (auto simp add: lat_warm_fast simp del: upt_rec_numeral)

lemma warm_H_run:
  "leak_byte (\<lambda>a. if a = 4096 then 72 else 0) 4096 (lat_lines (lat_warm 0 72)) =
     \<lparr>byte = 72, out = '''', rounds = 201\<rparr>"
  using single_scorer_leak_byte [of "lat_warm 0 72" "\<lambda>a. if a = 4096 then 72 else 0" 72 4096]
    warm_H_scorer
  by simp

lemma warm_zero_scorer:
  "\<forall>i<256. (is_fast (map (lat_warm 1 0) [0..<256]) i \<and> i \<noteq> unat (1::uint8)) = (i = 0)"
  by (auto simp add: lat_warm_fast simp del: upt_rec_numeral)

lemma warm_zero_run:
  "leak_byte (\<lambda>a. if a = 0 then 1 else 0) 4096 (lat_lines (lat_warm 1 0)) =
     \<lparr>byte = 0, out = ''[[[unlikely]]]:'', rounds = 1000\<rparr>"
  using single_scorer_leak_byte [of "lat_warm 1 0" "\<lambda>a. if a = 0 then 1 else 0" 0 4096]
    warm_zero_scorer
  by simp

theorem early_exit_not_before_201_witness:
  "(72::nat) < 256 \<and>
   scores_after (lat_lines (lat_warm 0 72)) 0 201 ! 72 \<le> 201 \<and>
   exit_fires (lat_lines (lat_warm 0 72)) 0 201 \<and>
   out (leak_byte (\<lambda>a. if a = 4096 then 72 else 0) 4096 (lat_lines (lat_warm 0 72))) \<noteq> ''[[[unlikely]]]:'' \<and>
   201 \<le> rounds (leak_byte (\<lambda>a. if a = 4096 then 72 else 0) 4096 (lat_lines (lat_warm 0 72)))"
proof -
  have f: "exit_fires (lat_lines (lat_warm 0 72)) 0 201"
    using single_scorer_fires [OF warm_H_scorer, of 201] by simp
  have o: "out (leak_byte (\<lambda>a. if a = 4096 then 72 else 0) 4096 (lat_lines (lat_warm 0 72)))
      \<noteq> ''[[[unlikely]]]:''"
    by (simp add: warm_H_run)
  from early_exit_not_before_201 [of 72 "lat_lines (lat_warm 0 72)"
      "\<lambda>a. if a = 4096 then 72 else 0" 201 4096] f o
  show ?thesis by simp
qed

theorem round_cap_low_confidence_witness:
  "\<not> (\<exists>r\<in>{1..1000}. exit_fires (lat_lines lat_flat) 0 r) \<and>
   rounds (leak_byte (\<lambda>a. 0) 4096 (lat_lines lat_flat)) = 1000 \<and>
   out (leak_byte (\<lambda>a. 0) 4096 (lat_lines lat_flat)) = ''[[[unlikely]]]:'' \<and>
   is_best (scores_after (lat_lines lat_flat) 0 1000)
     (unat (byte (leak_byte (\<lambda>a. 0) 4096 (lat_lines lat_flat)))) \<and>
   out (leak_byte (\<lambda>a. if a = 4096 then 72 else 0) 4096 (lat_lines (lat_warm 0 72))) \<noteq> ''[[[unlikely]]]:'' \<and>
   (\<exists>r\<in>{1..1000}. \<exists>j k.
      is_best (scores_after (lat_lines (lat_warm 0 72)) 0 r) j \<and>
      is_second (scores_after (lat_lines (lat_warm 0 72)) 0 r) j k \<and>
      scores_after (lat_lines (lat_warm 0 72)) 0 r ! j
        > 2 * scores_after (lat_lines (lat_warm 0 72)) 0 r ! k + 200 \<and>
      rounds (leak_byte (\<lambda>a. if a = 4096 then 72 else 0) 4096 (lat_lines (lat_warm 0 72))) = r \<and>
      unat (byte (leak_byte (\<lambda>a. if a = 4096 then 72 else 0) 4096 (lat_lines (lat_warm 0 72)))) = j)"
proof -
  have nf: "\<forall>r\<in>{1..1000}. \<not> exit_fires (lat_lines lat_flat) 0 r"
    by (simp add: flat_run_never_fires)
  have o: "out (leak_byte (\<lambda>a. if a = 4096 then 72 else 0) 4096 (lat_lines (lat_warm 0 72)))
      \<noteq> ''[[[unlikely]]]:''"
    by (simp add: warm_H_run)
  note flat = round_cap_low_confidence [of "lat_lines lat_flat" "\<lambda>a. 0" 4096]
  note warm = round_cap_low_confidence [of "lat_lines (lat_warm 0 72)"
      "\<lambda>a. if a = 4096 then 72 else 0" 4096]
  from flat nf have a: "rounds (leak_byte (\<lambda>a. 0) 4096 (lat_lines lat_flat)) = 1000 \<and>
      out (leak_byte (\<lambda>a. 0) 4096 (lat_lines lat_flat)) = ''[[[unlikely]]]:'' \<and>
      is_best (scores_after (lat_lines lat_flat) 0 1000)
        (unat (byte (leak_byte (\<lambda>a. 0) 4096 (lat_lines lat_flat))))"
    by simp
  from warm o have b: "\<exists>r\<in>{1..1000}. \<exists>j k.
      is_best (scores_after (lat_lines (lat_warm 0 72)) 0 r) j \<and>
      is_second (scores_after (lat_lines (lat_warm 0 72)) 0 r) j k \<and>
      scores_after (lat_lines (lat_warm 0 72)) 0 r ! j
        > 2 * scores_after (lat_lines (lat_warm 0 72)) 0 r ! k + 200 \<and>
      rounds (leak_byte (\<lambda>a. if a = 4096 then 72 else 0) 4096 (lat_lines (lat_warm 0 72))) = r \<and>
      unat (byte (leak_byte (\<lambda>a. if a = 4096 then 72 else 0) 4096 (lat_lines (lat_warm 0 72)))) = j"
    by simp
  from nf a o b show ?thesis by blast
qed

text \<open>
  C3, at a run whose best candidate is candidate 0. \<open>private_data[0]\<close> is 1 and the
  protected byte is 0, so in every round the lines 1 and 0 are read in 30 cycles and
  the others in 300: candidate 1 is excluded and candidate 0 scores. After round 201
  the scores are 201 for candidate 0 and 0 for the others, so the best score exceeds
  twice the second best plus 200. \<open>get_top_two\<close> gives position 0 for both entries,
  the check compares 201 with \<open>2 * 201 + 200\<close>, and the call runs all 1000 rounds and
  writes the marker.
\<close>

theorem early_exit_missed_failing:
  "scores_after (lat_lines (lat_warm 1 0)) 1 201 ! 0 = 201 \<and>
   scores_after (lat_lines (lat_warm 1 0)) 1 201 ! 1 = 0 \<and>
   is_best (scores_after (lat_lines (lat_warm 1 0)) 1 201) 0 \<and>
   is_second (scores_after (lat_lines (lat_warm 1 0)) 1 201) 0 1 \<and>
   get_top_two (scores_after (lat_lines (lat_warm 1 0)) 1 201) = (0, 0) \<and>
   \<not> exit_fires (lat_lines (lat_warm 1 0)) 1 201 \<and>
   leak_byte (\<lambda>a. if a = 0 then 1 else 0) 4096 (lat_lines (lat_warm 1 0)) =
     \<lparr>byte = 0, out = ''[[[unlikely]]]:'', rounds = 1000\<rparr>"
proof -
  let ?sc = "scores_after (lat_lines (lat_warm 1 0)) 1 201"
  have sc: "\<forall>i<256. ?sc ! i = (if i = 0 then 201 else 0)"
    using single_scorer_scores [OF warm_zero_scorer, where r = 201] by simp
  have len: "length ?sc = 256" by (rule scores_after_length)
  have "is_best ?sc 0" using sc len by (simp add: is_best_def)
  moreover have "is_second ?sc 0 1" using sc len by (simp add: is_second_def)
  moreover have "get_top_two ?sc = (0, 0)"
    using sc len by (intro get_top_two_first_max) simp
  moreover have "\<not> exit_fires (lat_lines (lat_warm 1 0)) 1 201"
    using single_scorer_fires [OF warm_zero_scorer, of 201] by simp
  moreover have "?sc ! 0 = 201" "?sc ! 1 = 0" using sc by simp_all
  ultimately show ?thesis using warm_zero_run by simp
qed

theorem early_exit_missed_failing_witness:
  "rounds (leak_byte (\<lambda>a. if a = 0 then 1 else 0) 4096 (lat_lines (lat_warm 1 0))) \<noteq> 201"
  using early_exit_missed_failing by simp

end
